theory Spec2Isabelle
  imports Main
begin

section \<open>The binary paintshop notebook: \<open>spin_glass\<close> and \<open>color_changes\<close>\<close>

text \<open>
  The two pure Python functions of \<^verbatim>\<open>docs/qaoa/binary_paintshop.ipynb\<close> are embedded
  here. Python integers are \<^typ>\<open>int\<close>, Python sequences are lists, the local sets
  \<^verbatim>\<open>appeared_already\<close> and \<^verbatim>\<open>painted_once\<close> are HOL sets threaded through the loops,
  and the generator \<^verbatim>\<open>spin_glass\<close> is the list of the triples it yields, in order.
\<close>

subsection \<open>\<open>spin_glass\<close>\<close>

text \<open>
  \<^verbatim>\<open>
  def spin_glass(car_sequence):
      ferromagnetic = -1
      antiferromagnetic = 1
      appeared_already = set()
      for car0, car1 in zip(car_sequence, car_sequence[1:]):
          if car0 == car1:
              continue
          if car0 in appeared_already:
              appeared_already.add(car0)
              if car1 in appeared_already:
                  yield car0, car1, ferromagnetic
              else:
                  yield car0, car1, antiferromagnetic
          else:
              appeared_already.add(car0)
              if car1 in appeared_already:
                  yield car0, car1, antiferromagnetic
              else:
                  yield car0, car1, ferromagnetic
  \<close>
\<close>

type_synonym interaction = "int \<times> int \<times> int"

definition ferromagnetic :: int where
  "ferromagnetic = - 1"

definition antiferromagnetic :: int where
  "antiferromagnetic = 1"

text \<open>The body of the \<^verbatim>\<open>for\<close> loop, over the zipped pairs still to be read.\<close>

fun spin_glass_loop :: "int set \<Rightarrow> (int \<times> int) list \<Rightarrow> interaction list" where
  "spin_glass_loop appeared_already [] = []"
| "spin_glass_loop appeared_already ((car0, car1) # pairs) =
     (if car0 = car1 then spin_glass_loop appeared_already pairs
      else if car0 \<in> appeared_already then
        (if car1 \<in> insert car0 appeared_already
         then (car0, car1, ferromagnetic) # spin_glass_loop (insert car0 appeared_already) pairs
         else (car0, car1, antiferromagnetic) # spin_glass_loop (insert car0 appeared_already) pairs)
      else
        (if car1 \<in> insert car0 appeared_already
         then (car0, car1, antiferromagnetic) # spin_glass_loop (insert car0 appeared_already) pairs
         else (car0, car1, ferromagnetic) # spin_glass_loop (insert car0 appeared_already) pairs))"

text \<open>\<^verbatim>\<open>zip(car_sequence, car_sequence[1:])\<close>: the adjacent position pairs, in input order.\<close>

definition adjacent_pairs :: "'a list \<Rightarrow> ('a \<times> 'a) list" where
  "adjacent_pairs car_sequence = zip car_sequence (drop 1 car_sequence)"

definition spin_glass :: "int list \<Rightarrow> interaction list" where
  "spin_glass car_sequence = spin_glass_loop {} (adjacent_pairs car_sequence)"



text \<open>The third component of a yielded triple.\<close>

definition sign_of :: "interaction \<Rightarrow> int" where
  "sign_of t = snd (snd t)"

text \<open>The number of immediately adjacent equal elements of a sequence.\<close>

definition adjacent_equal :: "'a list \<Rightarrow> nat" where
  "adjacent_equal car_sequence =
     length (filter (\<lambda>(car0, car1). car0 = car1) (adjacent_pairs car_sequence))"



text \<open>
  A well-formed paired sequence, in the words of the specification: every identifier
  occurs exactly twice. The source never tests this.
\<close>

definition well_formed :: "int list \<Rightarrow> bool" where
  "well_formed car_sequence = (\<forall>car \<in> set car_sequence. count_list car_sequence car = 2)"

text \<open>
  The interaction extractor as the specification words it: position \<open>i\<close> is a second
  occurrence when its identifier appears at an earlier position, and the pair of positions
  \<open>(i, i+1)\<close> with different identifiers gets the ferromagnetic sign when both
  positions have the same occurrence status, the antiferromagnetic sign otherwise.
\<close>

definition seen_before :: "int list \<Rightarrow> nat \<Rightarrow> bool" where
  "seen_before car_sequence i = (car_sequence ! i \<in> set (take i car_sequence))"

definition spec_interaction :: "int list \<Rightarrow> nat \<Rightarrow> interaction list" where
  "spec_interaction car_sequence i =
     (if car_sequence ! i = car_sequence ! (i + 1) then []
      else [(car_sequence ! i, car_sequence ! (i + 1),
             if seen_before car_sequence i = seen_before car_sequence (i + 1)
             then ferromagnetic else antiferromagnetic)])"

definition spin_glass_spec :: "int list \<Rightarrow> interaction list" where
  "spin_glass_spec car_sequence =
     concat (map (spec_interaction car_sequence) [0 ..< length car_sequence - 1])"

subsection \<open>\<open>color_changes\<close>\<close>

text \<open>
  \<^verbatim>\<open>
  def color_changes(paint_bitstring, car_sequence):
      color_sequence = []
      painted_once = set()
      for car in car_sequence:
          if car in painted_once:
              # paint the other color for the second car in the pair
              color_sequence.append(not paint_bitstring[car])
          else:
              # paint the noted color for the first car in the pair
              color_sequence.append(paint_bitstring[car])
              painted_once.add(car)
      paint_change_counter = 0
      # count the number of times two adjacent cars differ in color
      for color0, color1 in zip(color_sequence, color_sequence[1:]):
          if color0 != color1:
              paint_change_counter += 1
      return paint_change_counter
  \<close>
  The subscript \<^verbatim>\<open>paint_bitstring[car]\<close> is the one operation that can raise. The
  colour sequence holds integers (first cars) and Booleans (the result of \<^verbatim>\<open>not\<close>),
  which Python compares by numeric value.
\<close>

datatype py_error = IndexError

datatype color = PyInt int | PyBool bool

text \<open>\<^verbatim>\<open>not v\<close> for an integer \<open>v\<close>: true exactly for zero.\<close>

definition py_not :: "int \<Rightarrow> bool" where
  "py_not v = (v = 0)"

fun numeric :: "color \<Rightarrow> int" where
  "numeric (PyInt v) = v"
| "numeric (PyBool b) = (if b then 1 else 0)"

text \<open>\<^verbatim>\<open>color0 != color1\<close>.\<close>

definition py_ne :: "color \<Rightarrow> color \<Rightarrow> bool" where
  "py_ne color0 color1 = (numeric color0 \<noteq> numeric color1)"

text \<open>
  Subscripting a sequence of length \<open>n\<close>: indices from \<open>-n\<close> to \<open>n - 1\<close> are
  accepted, a negative one counting from the end; any other raises \<^verbatim>\<open>IndexError\<close>.
\<close>

definition valid_index :: "'a list \<Rightarrow> int \<Rightarrow> bool" where
  "valid_index xs i = (- int (length xs) \<le> i \<and> i < int (length xs))"

definition item :: "'a list \<Rightarrow> int \<Rightarrow> 'a" where
  "item xs i = xs ! nat (if i < 0 then i + int (length xs) else i)"

definition getitem :: "'a list \<Rightarrow> int \<Rightarrow> py_error + 'a" where
  "getitem xs i = (if valid_index xs i then Inr (item xs i) else Inl IndexError)"

text \<open>The first loop, over the cars still to be painted.\<close>

fun paint_loop :: "int list \<Rightarrow> int set \<Rightarrow> color list \<Rightarrow> int list \<Rightarrow> py_error + color list" where
  "paint_loop paint_bitstring painted_once color_sequence [] = Inr color_sequence"
| "paint_loop paint_bitstring painted_once color_sequence (car # cars) =
     (if car \<in> painted_once then
        (case getitem paint_bitstring car of
           Inl e \<Rightarrow> Inl e
         | Inr paint \<Rightarrow>
             paint_loop paint_bitstring painted_once
               (color_sequence @ [PyBool (py_not paint)]) cars)
      else
        (case getitem paint_bitstring car of
           Inl e \<Rightarrow> Inl e
         | Inr paint \<Rightarrow>
             paint_loop paint_bitstring (insert car painted_once)
               (color_sequence @ [PyInt paint]) cars))"

text \<open>The second loop, over the zipped colour pairs still to be compared.\<close>

fun count_loop :: "int \<Rightarrow> (color \<times> color) list \<Rightarrow> int" where
  "count_loop paint_change_counter [] = paint_change_counter"
| "count_loop paint_change_counter ((color0, color1) # pairs) =
     (if py_ne color0 color1 then count_loop (paint_change_counter + 1) pairs
      else count_loop paint_change_counter pairs)"

definition color_changes :: "int list \<Rightarrow> int list \<Rightarrow> py_error + int" where
  "color_changes paint_bitstring car_sequence =
     (case paint_loop paint_bitstring {} [] car_sequence of
        Inl e \<Rightarrow> Inl e
      | Inr color_sequence \<Rightarrow> Inr (count_loop 0 (adjacent_pairs color_sequence)))"

text \<open>
  The colour sequence as the specification derives it: the first occurrence of
  identifier \<open>c\<close> has colour \<^verbatim>\<open>paint_bitstring[c]\<close>, every later occurrence the Boolean
  negation of \<^verbatim>\<open>paint_bitstring[c]\<close>; the score is the number of adjacent position pairs
  whose colours differ.
\<close>

definition derived_color :: "int list \<Rightarrow> int list \<Rightarrow> nat \<Rightarrow> color" where
  "derived_color paint_bitstring car_sequence i =
     (if seen_before car_sequence i
      then PyBool (py_not (item paint_bitstring (car_sequence ! i)))
      else PyInt (item paint_bitstring (car_sequence ! i)))"

definition color_changes_spec :: "int list \<Rightarrow> int list \<Rightarrow> int" where
  "color_changes_spec paint_bitstring car_sequence =
     int (length (filter
       (\<lambda>i. py_ne (derived_color paint_bitstring car_sequence i)
                 (derived_color paint_bitstring car_sequence (i + 1)))
       [0 ..< length car_sequence - 1]))"

subsection \<open>The two functions as state machines\<close>

text \<open>
  To speak about runs, the loops are also given as step relations on a state that holds
  the arguments, as the caller's objects, next to the locals of the function.
\<close>

record sg_state =
  sg_car_sequence :: "int list"
  sg_position :: nat
  sg_appeared_already :: "int set"
  sg_yielded :: "interaction list"

text \<open>Whether the \<^verbatim>\<open>zip\<close> iterator has another pair, and the pair it would give.\<close>

definition sg_more :: "sg_state \<Rightarrow> bool" where
  "sg_more st = (sg_position st + 1 < length (sg_car_sequence st))"

definition sg_car0 :: "sg_state \<Rightarrow> int" where
  "sg_car0 st = sg_car_sequence st ! sg_position st"

definition sg_car1 :: "sg_state \<Rightarrow> int" where
  "sg_car1 st = sg_car_sequence st ! (sg_position st + 1)"

text \<open>One iteration of the loop: the \<^verbatim>\<open>continue\<close> and the four \<^verbatim>\<open>yield\<close> statements.\<close>

inductive sg_step :: "sg_state \<Rightarrow> sg_state \<Rightarrow> bool" where
  sg_continue:
    "sg_more st \<Longrightarrow> sg_car0 st = sg_car1 st \<Longrightarrow>
     sg_step st (st\<lparr>sg_position := sg_position st + 1\<rparr>)"
| sg_second_second:
    "sg_more st \<Longrightarrow> sg_car0 st \<noteq> sg_car1 st \<Longrightarrow>
     sg_car0 st \<in> sg_appeared_already st \<Longrightarrow>
     sg_car1 st \<in> insert (sg_car0 st) (sg_appeared_already st) \<Longrightarrow>
     sg_step st (st\<lparr>sg_position := sg_position st + 1,
                    sg_appeared_already := insert (sg_car0 st) (sg_appeared_already st),
                    sg_yielded := sg_yielded st @ [(sg_car0 st, sg_car1 st, ferromagnetic)]\<rparr>)"
| sg_second_first:
    "sg_more st \<Longrightarrow> sg_car0 st \<noteq> sg_car1 st \<Longrightarrow>
     sg_car0 st \<in> sg_appeared_already st \<Longrightarrow>
     sg_car1 st \<notin> insert (sg_car0 st) (sg_appeared_already st) \<Longrightarrow>
     sg_step st (st\<lparr>sg_position := sg_position st + 1,
                    sg_appeared_already := insert (sg_car0 st) (sg_appeared_already st),
                    sg_yielded := sg_yielded st @ [(sg_car0 st, sg_car1 st, antiferromagnetic)]\<rparr>)"
| sg_first_second:
    "sg_more st \<Longrightarrow> sg_car0 st \<noteq> sg_car1 st \<Longrightarrow>
     sg_car0 st \<notin> sg_appeared_already st \<Longrightarrow>
     sg_car1 st \<in> insert (sg_car0 st) (sg_appeared_already st) \<Longrightarrow>
     sg_step st (st\<lparr>sg_position := sg_position st + 1,
                    sg_appeared_already := insert (sg_car0 st) (sg_appeared_already st),
                    sg_yielded := sg_yielded st @ [(sg_car0 st, sg_car1 st, antiferromagnetic)]\<rparr>)"
| sg_first_first:
    "sg_more st \<Longrightarrow> sg_car0 st \<noteq> sg_car1 st \<Longrightarrow>
     sg_car0 st \<notin> sg_appeared_already st \<Longrightarrow>
     sg_car1 st \<notin> insert (sg_car0 st) (sg_appeared_already st) \<Longrightarrow>
     sg_step st (st\<lparr>sg_position := sg_position st + 1,
                    sg_appeared_already := insert (sg_car0 st) (sg_appeared_already st),
                    sg_yielded := sg_yielded st @ [(sg_car0 st, sg_car1 st, ferromagnetic)]\<rparr>)"

definition sg_initial :: "int list \<Rightarrow> sg_state" where
  "sg_initial car_sequence =
     \<lparr>sg_car_sequence = car_sequence, sg_position = 0, sg_appeared_already = {}, sg_yielded = []\<rparr>"

text \<open>A run starts with the fresh locals and ends when the iterator is exhausted.\<close>

definition sg_run :: "int list \<Rightarrow> sg_state \<Rightarrow> bool" where
  "sg_run car_sequence st = (rtranclp sg_step (sg_initial car_sequence) st \<and> \<not> sg_more st)"

text \<open>
  The state of a call of \<^verbatim>\<open>color_changes\<close>: the control point is in the first loop (at
  a position of the car sequence), in the second loop (at a position of the colour
  sequence), or the call has ended.
\<close>

datatype cc_control = Painting nat | Counting nat | Returned int | Raised py_error

record cc_state =
  cc_paint_bitstring :: "int list"
  cc_car_sequence :: "int list"
  cc_control :: cc_control
  cc_painted_once :: "int set"
  cc_color_sequence :: "color list"
  cc_paint_change_counter :: int

text \<open>
  One iteration of the first loop (second car, first car, or a raising subscript), the
  passage to the second loop, one iteration of the second loop, and the \<^verbatim>\<open>return\<close>.
\<close>

inductive cc_step :: "cc_state \<Rightarrow> cc_state \<Rightarrow> bool" where
  cc_paint_second:
    "cc_control st = Painting i \<Longrightarrow> i < length (cc_car_sequence st) \<Longrightarrow>
     cc_car_sequence st ! i \<in> cc_painted_once st \<Longrightarrow>
     getitem (cc_paint_bitstring st) (cc_car_sequence st ! i) = Inr paint \<Longrightarrow>
     cc_step st (st\<lparr>cc_control := Painting (i + 1),
                    cc_color_sequence := cc_color_sequence st @ [PyBool (py_not paint)]\<rparr>)"
| cc_paint_first:
    "cc_control st = Painting i \<Longrightarrow> i < length (cc_car_sequence st) \<Longrightarrow>
     cc_car_sequence st ! i \<notin> cc_painted_once st \<Longrightarrow>
     getitem (cc_paint_bitstring st) (cc_car_sequence st ! i) = Inr paint \<Longrightarrow>
     cc_step st (st\<lparr>cc_control := Painting (i + 1),
                    cc_color_sequence := cc_color_sequence st @ [PyInt paint],
                    cc_painted_once := insert (cc_car_sequence st ! i) (cc_painted_once st)\<rparr>)"
| cc_paint_raise:
    "cc_control st = Painting i \<Longrightarrow> i < length (cc_car_sequence st) \<Longrightarrow>
     getitem (cc_paint_bitstring st) (cc_car_sequence st ! i) = Inl e \<Longrightarrow>
     cc_step st (st\<lparr>cc_control := Raised e\<rparr>)"
| cc_paint_done:
    "cc_control st = Painting i \<Longrightarrow> \<not> i < length (cc_car_sequence st) \<Longrightarrow>
     cc_step st (st\<lparr>cc_control := Counting 0, cc_paint_change_counter := 0\<rparr>)"
| cc_count_change:
    "cc_control st = Counting j \<Longrightarrow> j + 1 < length (cc_color_sequence st) \<Longrightarrow>
     py_ne (cc_color_sequence st ! j) (cc_color_sequence st ! (j + 1)) \<Longrightarrow>
     cc_step st (st\<lparr>cc_control := Counting (j + 1),
                    cc_paint_change_counter := cc_paint_change_counter st + 1\<rparr>)"
| cc_count_same:
    "cc_control st = Counting j \<Longrightarrow> j + 1 < length (cc_color_sequence st) \<Longrightarrow>
     \<not> py_ne (cc_color_sequence st ! j) (cc_color_sequence st ! (j + 1)) \<Longrightarrow>
     cc_step st (st\<lparr>cc_control := Counting (j + 1)\<rparr>)"
| cc_return:
    "cc_control st = Counting j \<Longrightarrow> \<not> j + 1 < length (cc_color_sequence st) \<Longrightarrow>
     cc_step st (st\<lparr>cc_control := Returned (cc_paint_change_counter st)\<rparr>)"

definition cc_initial :: "int list \<Rightarrow> int list \<Rightarrow> cc_state" where
  "cc_initial paint_bitstring car_sequence =
     \<lparr>cc_paint_bitstring = paint_bitstring, cc_car_sequence = car_sequence,
      cc_control = Painting 0, cc_painted_once = {}, cc_color_sequence = [],
      cc_paint_change_counter = 0\<rparr>"

text \<open>What the caller observes once the call has ended: a returned count or an exception.\<close>

fun cc_outcome :: "cc_control \<Rightarrow> (py_error + int) option" where
  "cc_outcome (Returned count) = Some (Inr count)"
| "cc_outcome (Raised e) = Some (Inl e)"
| "cc_outcome (Painting i) = None"
| "cc_outcome (Counting j) = None"

definition cc_run :: "int list \<Rightarrow> int list \<Rightarrow> cc_state \<Rightarrow> bool" where
  "cc_run paint_bitstring car_sequence st =
     (rtranclp cc_step (cc_initial paint_bitstring car_sequence) st
      \<and> cc_outcome (cc_control st) \<noteq> None)"

section \<open>Properties of \<open>spin_glass\<close>\<close>

subsection \<open>Shape of the output\<close>

lemma spin_glass_loop_pairs:
  "map (\<lambda>(car0, car1, sign). (car0, car1)) (spin_glass_loop A ps) =
     filter (\<lambda>(car0, car1). car0 \<noteq> car1) ps"
  by (induction A ps rule: spin_glass_loop.induct) simp_all

lemma spin_glass_loop_length:
  "length (spin_glass_loop A ps) = length (filter (\<lambda>(car0, car1). car0 \<noteq> car1) ps)"
proof -
  have "length (spin_glass_loop A ps) =
          length (map (\<lambda>(car0, car1, sign). (car0, car1)) (spin_glass_loop A ps))"
    by simp
  then show ?thesis
    by (simp only: spin_glass_loop_pairs)
qed

lemma spin_glass_loop_signs:
  "t \<in> set (spin_glass_loop A ps) \<Longrightarrow> sign_of t = 1 \<or> sign_of t = - 1"
  by (induction A ps rule: spin_glass_loop.induct)
     (auto simp: sign_of_def ferromagnetic_def antiferromagnetic_def split: if_splits)

lemma spin_glass_loop_skip:
  "spin_glass_loop A ((car, car) # ps) = spin_glass_loop A ps"
  by simp

lemma spin_glass_loop_yield:
  "car0 \<noteq> car1 \<Longrightarrow>
     spin_glass_loop A ((car0, car1) # ps) =
       (car0, car1, if (car0 \<in> A) = (car1 \<in> A) then ferromagnetic else antiferromagnetic)
         # spin_glass_loop (insert car0 A) ps"
  by simp

lemma spin_glass_loop_concat:
  "\<exists>signs. length signs = length ps \<and> set signs \<subseteq> {1, - 1} \<and>
     spin_glass_loop A ps =
       concat (map (\<lambda>((car0, car1), sign). if car0 = car1 then [] else [(car0, car1, sign)])
                   (zip ps signs))"
proof (induction ps arbitrary: A)
  case Nil
  show ?case by simp
next
  case (Cons p ps)
  obtain car0 car1 where p: "p = (car0, car1)"
    by (cases p)
  let ?emit = "\<lambda>((car0, car1), sign). if car0 = car1 then [] else [(car0, car1, sign :: int)]"
  define sg where "sg = (if (car0 \<in> A) = (car1 \<in> A) then ferromagnetic else antiferromagnetic)"
  define A' where "A' = (if car0 = car1 then A else insert car0 A)"
  have sg: "sg \<in> {1, - 1}"
    by (simp add: sg_def ferromagnetic_def antiferromagnetic_def)
  have step: "spin_glass_loop A (p # ps) = ?emit ((car0, car1), sg) @ spin_glass_loop A' ps"
    unfolding p A'_def sg_def
    by (cases "car0 = car1")
       (simp_all add: spin_glass_loop_skip spin_glass_loop_yield del: spin_glass_loop.simps)
  from Cons.IH [of A'] obtain signs where signs:
    "length signs = length ps" "set signs \<subseteq> {1, - 1}"
    "spin_glass_loop A' ps = concat (map ?emit (zip ps signs))"
    by blast
  have "length (sg # signs) = length (p # ps)"
    using signs(1) by simp
  moreover have "set (sg # signs) \<subseteq> {1, - 1}"
    using signs(2) sg by simp
  moreover have "spin_glass_loop A (p # ps) = concat (map ?emit (zip (p # ps) (sg # signs)))"
  proof -
    have "spin_glass_loop A (p # ps) =
            ?emit ((car0, car1), sg) @ concat (map ?emit (zip ps signs))"
      by (simp only: step signs(3))
    also have "\<dots> = concat (map ?emit (zip (p # ps) (sg # signs)))"
      by (simp add: p)
    finally show ?thesis .
  qed
  ultimately show ?case
    by blast
qed

lemma adjacent_pairs_length: "length (adjacent_pairs s) = length s - 1"
  by (simp add: adjacent_pairs_def)

lemma filter_split_length:
  "length (filter (\<lambda>(a, b). a \<noteq> b) ps) + length (filter (\<lambda>(a, b). a = b) ps) = length ps"
  by (induction ps) auto


text \<open>
  Claim C3. On the input \<open>[0,1,0,1]\<close> the generator yields three triples, one for each
  adjacent position pair: \<open>(0,1,f)\<close>, \<open>(1,0,a)\<close>, \<open>(0,1,f)\<close> with \<open>f\<close> the value of
  \<^verbatim>\<open>ferromagnetic\<close> and \<open>a\<close> the value of \<^verbatim>\<open>antiferromagnetic\<close>; literally
  \<open>(0,1,-1)\<close>, \<open>(1,0,1)\<close>, \<open>(0,1,-1)\<close>.
\<close>

theorem spin_glass_0101:
  "spin_glass [0, 1, 0, 1] =
     [(0, 1, ferromagnetic), (1, 0, antiferromagnetic), (0, 1, ferromagnetic)]
   \<and> spin_glass [0, 1, 0, 1] = [(0, 1, - 1), (1, 0, 1), (0, 1, - 1)]
   \<and> length (spin_glass [0, 1, 0, 1]) = 3"
  by (simp add: spin_glass_def adjacent_pairs_def ferromagnetic_def antiferromagnetic_def)

text \<open>
  Claim C7. For every input sequence the output is the in-order concatenation, over the
  adjacent position pairs in input order, of nothing where the two identifiers are equal
  and of exactly one triple otherwise; the triple's first two components are the two
  identifiers in that order, hence distinct, and its sign is \<open>+1\<close> or \<open>-1\<close>. So a
  singleton sequence, and a sequence all of whose adjacent pairs are equal, yield nothing.
\<close>

theorem spin_glass_shape:
  "(\<exists>signs. length signs = length (adjacent_pairs s) \<and> set signs \<subseteq> {1, - 1} \<and>
      spin_glass s =
        concat (map (\<lambda>((car0, car1), sign). if car0 = car1 then [] else [(car0, car1, sign)])
                    (zip (adjacent_pairs s) signs)))
   \<and> map (\<lambda>(car0, car1, sign). (car0, car1)) (spin_glass s) =
       filter (\<lambda>(car0, car1). car0 \<noteq> car1) (adjacent_pairs s)
   \<and> (\<forall>(car0, car1, sign) \<in> set (spin_glass s). car0 \<noteq> car1 \<and> sign \<in> {1, - 1})
   \<and> spin_glass [x] = []
   \<and> ((\<forall>(car0, car1) \<in> set (adjacent_pairs s). car0 = car1) \<longrightarrow> spin_glass s = [])"
proof (intro conjI)
  show "\<exists>signs. length signs = length (adjacent_pairs s) \<and> set signs \<subseteq> {1, - 1} \<and>
      spin_glass s =
        concat (map (\<lambda>((car0, car1), sign). if car0 = car1 then [] else [(car0, car1, sign)])
                    (zip (adjacent_pairs s) signs))"
    unfolding spin_glass_def by (rule spin_glass_loop_concat)
  show pairs: "map (\<lambda>(car0, car1, sign). (car0, car1)) (spin_glass s) =
       filter (\<lambda>(car0, car1). car0 \<noteq> car1) (adjacent_pairs s)"
    unfolding spin_glass_def by (rule spin_glass_loop_pairs)
  show "\<forall>(car0, car1, sign) \<in> set (spin_glass s). car0 \<noteq> car1 \<and> sign \<in> {1, - 1}"
  proof (clarify, intro conjI)
    fix car0 car1 sign
    assume mem: "(car0, car1, sign) \<in> set (spin_glass s)"
    then have "(car0, car1) \<in> set (map (\<lambda>(car0, car1, sign). (car0, car1)) (spin_glass s))"
      by force
    then show "car0 \<noteq> car1"
      by (simp add: pairs)
    from mem show "sign \<in> {1, - 1}"
      using spin_glass_loop_signs [of "(car0, car1, sign)" "{}" "adjacent_pairs s"]
      by (simp add: spin_glass_def sign_of_def)
  qed
  show "spin_glass [x] = []"
    by (simp add: spin_glass_def adjacent_pairs_def)
  show "(\<forall>(car0, car1) \<in> set (adjacent_pairs s). car0 = car1) \<longrightarrow> spin_glass s = []"
  proof
    assume "\<forall>(car0, car1) \<in> set (adjacent_pairs s). car0 = car1"
    then have "filter (\<lambda>(car0, car1). car0 \<noteq> car1) (adjacent_pairs s) = []"
      by (auto simp: filter_empty_conv)
    then have "length (spin_glass s) = 0"
      by (simp add: spin_glass_def spin_glass_loop_length)
    then show "spin_glass s = []"
      by simp
  qed
qed

theorem spin_glass_shape_witness:
  "adjacent_pairs [0, 0 :: int] = [(0, 0)]
   \<and> spin_glass [0, 0] = []
   \<and> spin_glass [7] = []"
proof -
  have h: "\<forall>(car0, car1) \<in> set (adjacent_pairs [0, 0 :: int]). car0 = car1"
    by (simp add: adjacent_pairs_def)
  have "adjacent_pairs [0, 0 :: int] = [(0, 0)]"
    by (simp add: adjacent_pairs_def)
  with h spin_glass_shape [of "[0, 0]" 7] show ?thesis
    by blast
qed

text \<open>
  Claim C2, amended. For every input sequence the number of yielded triples is the number
  of adjacent position pairs whose identifiers differ. For every non-empty sequence this
  is (length - 1) minus the number of immediately adjacent equal elements, and a sequence
  of length \<open>2n\<close> with \<open>n > 0\<close> and no adjacent equal elements yields exactly \<open>2n - 1\<close>
  triples. (The empty sequence yields no triple, where the formula would give \<open>-1\<close>.)
\<close>

theorem spin_glass_count:
  "length (spin_glass s) = length (filter (\<lambda>(car0, car1). car0 \<noteq> car1) (adjacent_pairs s))
   \<and> (s \<noteq> [] \<longrightarrow>
        int (length (spin_glass s)) = (int (length s) - 1) - int (adjacent_equal s))
   \<and> (length s = 2 * n \<and> 0 < n \<and> adjacent_equal s = 0 \<longrightarrow>
        int (length (spin_glass s)) = 2 * int n - 1)"
proof -
  have count: "length (spin_glass s) =
      length (filter (\<lambda>(car0, car1). car0 \<noteq> car1) (adjacent_pairs s))"
    by (simp add: spin_glass_def spin_glass_loop_length)
  have "length (spin_glass s) + adjacent_equal s = length s - 1"
    using filter_split_length [of "adjacent_pairs s"]
    by (simp add: count adjacent_equal_def adjacent_pairs_length)
  then have formula: "s \<noteq> [] \<longrightarrow>
      int (length (spin_glass s)) = (int (length s) - 1) - int (adjacent_equal s)"
    by (cases s) auto
  have "length s = 2 * n \<and> 0 < n \<and> adjacent_equal s = 0 \<longrightarrow>
      int (length (spin_glass s)) = 2 * int n - 1"
  proof
    assume a: "length s = 2 * n \<and> 0 < n \<and> adjacent_equal s = 0"
    then have "s \<noteq> []" by auto
    with formula a show "int (length (spin_glass s)) = 2 * int n - 1"
      by simp
  qed
  with count formula show ?thesis
    by blast
qed

theorem spin_glass_count_witness:
  "[0, 1, 0, 1] \<noteq> ([] :: int list) \<and> length [0, 1, 0, 1 :: int] = 2 * 2 \<and> (0 :: nat) < 2
   \<and> adjacent_equal [0, 1, 0, 1 :: int] = 0
   \<and> int (length (spin_glass [0, 1, 0, 1])) = 2 * int 2 - 1
   \<and> int (length (spin_glass [0, 1, 0, 1])) =
       (int (length [0, 1, 0, 1 :: int]) - 1) - int (adjacent_equal [0, 1, 0, 1 :: int])"
proof -
  have h: "adjacent_equal [0, 1, 0, 1 :: int] = 0"
    by (simp add: adjacent_equal_def adjacent_pairs_def)
  show ?thesis
    using h spin_glass_count [of "[0, 1, 0, 1]" 2] by simp
qed

text \<open>
  The claim as first stated, for every input sequence, fails at the empty sequence: no
  triple is yielded, and (length - 1) minus the number of adjacent equal elements is \<open>-1\<close>.
\<close>

theorem spin_glass_count_empty:
  "int (length (spin_glass [])) \<noteq>
     (int (length ([] :: int list)) - 1) - int (adjacent_equal ([] :: int list))
   \<and> length (spin_glass []) = 0"
  by (simp add: spin_glass_def adjacent_pairs_def adjacent_equal_def)

subsection \<open>The sign yielded for a pair of positions\<close>












subsection \<open>The occurrence status of a car that follows its own partner\<close>

text \<open>
  The set \<^verbatim>\<open>appeared_already\<close> only grows on the path that yields. As long as no two
  neighbours are equal it holds exactly the identifiers of the earlier positions, and the
  code yields what the specification describes.
\<close>

lemma spec_interaction_append:
  "x \<noteq> y \<Longrightarrow>
   spec_interaction (pre @ x # y # ys) (length pre) =
     [(x, y, if (x \<in> set pre) = (y \<in> set pre) then ferromagnetic else antiferromagnetic)]"
  by (auto simp: spec_interaction_def seen_before_def nth_append)

lemma spin_glass_loop_distinct_adj:
  "distinct_adj (x # xs) \<Longrightarrow>
     spin_glass_loop (set pre) (adjacent_pairs (x # xs)) =
       concat (map (spec_interaction (pre @ x # xs)) [length pre ..< length pre + length xs])"
proof (induction xs arbitrary: x pre)
  case Nil
  show ?case by (simp add: adjacent_pairs_def)
next
  case (Cons y ys)
  from Cons.prems have ne: "x \<noteq> y" and rest: "distinct_adj (y # ys)"
    by simp_all
  have pairs: "adjacent_pairs (x # y # ys) = (x, y) # adjacent_pairs (y # ys)"
    by (simp add: adjacent_pairs_def)
  have upt: "[length pre ..< length pre + length (y # ys)] =
               length pre # [length (pre @ [x]) ..< length (pre @ [x]) + length ys]"
    by (subst upt_rec) simp
  have "spin_glass_loop (set pre) (adjacent_pairs (x # y # ys)) =
          spec_interaction (pre @ x # y # ys) (length pre)
            @ spin_glass_loop (set (pre @ [x])) (adjacent_pairs (y # ys))"
    using ne by (simp add: pairs spin_glass_loop_yield spec_interaction_append
                   del: spin_glass_loop.simps)
  also have "spin_glass_loop (set (pre @ [x])) (adjacent_pairs (y # ys)) =
      concat (map (spec_interaction ((pre @ [x]) @ y # ys))
        [length (pre @ [x]) ..< length (pre @ [x]) + length ys])"
    by (rule Cons.IH [OF rest])
  finally have "spin_glass_loop (set pre) (adjacent_pairs (x # y # ys)) =
      spec_interaction (pre @ x # y # ys) (length pre)
        @ concat (map (spec_interaction ((pre @ [x]) @ y # ys))
            [length (pre @ [x]) ..< length (pre @ [x]) + length ys])" .
  then show ?case
    unfolding upt by simp
qed

lemma spin_glass_distinct_adj:
  assumes "distinct_adj s"
  shows "spin_glass s = spin_glass_spec s"
proof (cases s)
  case Nil
  then show ?thesis
    by (simp add: spin_glass_def spin_glass_spec_def adjacent_pairs_def)
next
  case (Cons x xs)
  with assms spin_glass_loop_distinct_adj [of x xs "[]"] show ?thesis
    by (simp add: spin_glass_def spin_glass_spec_def)
qed

text \<open>
  In a well-formed sequence an identifier occurs later exactly when the position at hand
  is its first occurrence, so reversing the sequence swaps first and second occurrences:
  the extractor of the specification yields the reversed list of signs.
\<close>

lemma later_iff_first:
  assumes "well_formed s" and "p < length s"
  shows "(s ! p \<in> set (drop (Suc p) s)) = (\<not> seen_before s p)"
proof -
  have "s = take p s @ s ! p # drop (Suc p) s"
    using assms(2) by (rule id_take_nth_drop)
  then have "count_list s (s ! p) =
      count_list (take p s) (s ! p) + count_list (s ! p # drop (Suc p) s) (s ! p)"
    by (metis count_list_append)
  moreover have "count_list s (s ! p) = 2"
    using assms by (simp add: well_formed_def)
  ultimately have "count_list (take p s) (s ! p) + count_list (drop (Suc p) s) (s ! p) = 1"
    by simp
  then have "(count_list (drop (Suc p) s) (s ! p) = 0) = (count_list (take p s) (s ! p) \<noteq> 0)"
    by arith
  then show ?thesis
    unfolding seen_before_def count_list_0_iff by blast
qed

lemma seen_before_rev:
  assumes "well_formed s" and "i < length s"
  shows "seen_before (rev s) i = (\<not> seen_before s (length s - Suc i))"
proof -
  let ?p = "length s - Suc i"
  have p: "?p < length s" and drop: "length s - i = Suc ?p"
    using assms(2) by simp_all
  have "seen_before (rev s) i = (s ! ?p \<in> set (drop (Suc ?p) s))"
    using assms(2) by (simp add: seen_before_def rev_nth take_rev drop)
  with later_iff_first [OF assms(1) p] show ?thesis
    by simp
qed

lemma spec_sign_rev:
  assumes "well_formed s" and "i + 1 < length s"
  shows "map sign_of (spec_interaction (rev s) i) =
         map sign_of (spec_interaction s (length s - 2 - i))"
proof -
  let ?k = "length s - 2 - i"
  have idx: "length s - Suc i = ?k + 1" "length s - Suc (i + 1) = ?k"
    using assms(2) by simp_all
  have nth: "rev s ! i = s ! (?k + 1)" "rev s ! (i + 1) = s ! ?k"
    using assms(2) by (simp_all add: rev_nth idx)
  have sb: "seen_before (rev s) i = (\<not> seen_before s (?k + 1))"
    "seen_before (rev s) (i + 1) = (\<not> seen_before s ?k)"
    using seen_before_rev [OF assms(1), of i] seen_before_rev [OF assms(1), of "i + 1"] assms(2)
    by (simp_all add: idx)
  show ?thesis
    unfolding spec_interaction_def nth sb
    by (auto simp: sign_of_def)
qed

lemma rev_upt_0: "rev [0 ..< m] = map (\<lambda>i. m - 1 - i) [0 ..< m]"
  by (rule nth_equalityI) (simp_all add: rev_nth)

lemma spin_glass_spec_rev:
  assumes "well_formed s"
  shows "map sign_of (spin_glass_spec (rev s)) = rev (map sign_of (spin_glass_spec s))"
proof -
  let ?m = "length s - 1"
  let ?sgn = "\<lambda>t i. map sign_of (spec_interaction t i)"
  have short: "rev (spec_interaction s i) = spec_interaction s i" for i
    by (simp add: spec_interaction_def)
  have "map sign_of (spin_glass_spec (rev s)) = concat (map (?sgn (rev s)) [0 ..< ?m])"
    by (simp add: spin_glass_spec_def map_concat comp_def)
  also have "\<dots> = concat (map (\<lambda>i. ?sgn s (?m - 1 - i)) [0 ..< ?m])"
  proof -
    have "?sgn (rev s) i = ?sgn s (?m - 1 - i)" if "i \<in> set [0 ..< ?m]" for i
      using that spec_sign_rev [OF assms, of i] by simp
    then show ?thesis
      by (metis (no_types, lifting) map_cong)
  qed
  also have "\<dots> = concat (map (?sgn s) (rev [0 ..< ?m]))"
    by (simp add: rev_upt_0 comp_def)
  also have "\<dots> = rev (concat (map (?sgn s) [0 ..< ?m]))"
    by (simp add: rev_concat rev_map short comp_def)
  also have "\<dots> = rev (map sign_of (spin_glass_spec s))"
    by (simp add: spin_glass_spec_def map_concat comp_def)
  finally show ?thesis .
qed

lemma spin_glass_rev_distinct_adj:
  assumes "well_formed s" and "distinct_adj s"
  shows "map sign_of (spin_glass (rev s)) = rev (map sign_of (spin_glass s))"
proof -
  from assms(2) have "distinct_adj (rev s)"
    by (simp add: distinct_adj_rev)
  then have "spin_glass (rev s) = spin_glass_spec (rev s)"
    by (rule spin_glass_distinct_adj)
  moreover from assms(2) have "spin_glass s = spin_glass_spec s"
    by (rule spin_glass_distinct_adj)
  ultimately show ?thesis
    using spin_glass_spec_rev [OF assms(1)] by simp
qed

text \<open>
  Claim C1. On \<open>[0,0,1,1]\<close>, where every identifier occurs exactly twice, positions 1
  and 2 hold different identifiers, position 1 is the second occurrence of 0 and position
  2 the first occurrence of 1, so the rule of the specification gives the
  antiferromagnetic sign. The code yields the ferromagnetic one: the \<^verbatim>\<open>continue\<close> taken
  for the pair of positions 0 and 1 skips \<^verbatim>\<open>appeared_already.add(car0)\<close>, so at the next
  pair identifier 0 is still taken for a first occurrence.
\<close>

theorem spin_glass_0011:
  "set [0, 0, 1, 1] = {0, 1 :: int}
   \<and> count_list [0, 0, 1, 1] (0 :: int) = 2 \<and> count_list [0, 0, 1, 1] (1 :: int) = 2
   \<and> spin_glass [0, 0, 1, 1] = [(0, 1, ferromagnetic)]
   \<and> spin_glass_spec [0, 0, 1, 1] = [(0, 1, antiferromagnetic)]
   \<and> seen_before [0, 0, 1, 1] 1 \<and> \<not> seen_before [0, 0, 1, 1] 2
   \<and> ferromagnetic \<noteq> antiferromagnetic"
  by (simp add: insert_commute spin_glass_def adjacent_pairs_def spin_glass_spec_def
        spec_interaction_def seen_before_def ferromagnetic_def antiferromagnetic_def
        upt_rec [of 0] upt_rec [of 1] upt_rec [of 2] upt_rec [of 3])

text \<open>
  Claim C5. On \<open>[1,0,0,1]\<close>, where every identifier occurs exactly twice, the signs
  yielded are \<open>-1, +1\<close>. The sequence is its own reverse, so the signs yielded from the
  reversed input are \<open>-1, +1\<close> again, which is not the reverse \<open>+1, -1\<close>.
\<close>

theorem spin_glass_rev_1001:
  "set [1, 0, 0, 1] = {0, 1 :: int}
   \<and> count_list [1, 0, 0, 1] (0 :: int) = 2 \<and> count_list [1, 0, 0, 1] (1 :: int) = 2
   \<and> map sign_of (spin_glass [1, 0, 0, 1]) = [- 1, 1]
   \<and> map sign_of (spin_glass (rev [1, 0, 0, 1])) = [- 1, 1]
   \<and> map sign_of (spin_glass (rev [1, 0, 0, 1])) \<noteq> rev (map sign_of (spin_glass [1, 0, 0, 1]))
   \<and> map sign_of (spin_glass_spec [1, 0, 0, 1]) = [- 1, - 1]"
  by (simp add: insert_commute spin_glass_def adjacent_pairs_def sign_of_def
        spin_glass_spec_def spec_interaction_def seen_before_def
        ferromagnetic_def antiferromagnetic_def
        upt_rec [of 0] upt_rec [of 1] upt_rec [of 2] upt_rec [of 3])

section \<open>Properties of \<open>color_changes\<close>\<close>

lemma count_loop_eq:
  "count_loop c ps = c + int (length (filter (\<lambda>(color0, color1). py_ne color0 color1) ps))"
  by (induction ps arbitrary: c) auto

lemma seen_before_append:
  "seen_before (pre @ car # cars) (length pre) = (car \<in> set pre)"
  by (simp add: seen_before_def)

lemma derived_color_append:
  "derived_color pb (pre @ car # cars) (length pre) =
     (if car \<in> set pre then PyBool (py_not (item pb car)) else PyInt (item pb car))"
  by (simp add: derived_color_def seen_before_append)

lemma paint_loop_valid:
  "\<forall>car \<in> set cars. valid_index pb car \<Longrightarrow>
     paint_loop pb (set pre) acc cars =
       Inr (acc @ map (derived_color pb (pre @ cars)) [length pre ..< length pre + length cars])"
proof (induction cars arbitrary: pre acc)
  case Nil
  show ?case by simp
next
  case (Cons car cars)
  let ?col = "derived_color pb (pre @ car # cars) (length pre)"
  have valid: "getitem pb car = Inr (item pb car)"
    using Cons.prems by (simp add: getitem_def)
  have set': "(if car \<in> set pre then set pre else insert car (set pre)) = set (pre @ [car])"
    by auto
  have "paint_loop pb (set pre) acc (car # cars) = paint_loop pb (set (pre @ [car])) (acc @ [?col]) cars"
    using valid set' by (simp add: derived_color_append insert_absorb)
  also have "\<dots> = Inr ((acc @ [?col]) @ map (derived_color pb ((pre @ [car]) @ cars))
                  [length (pre @ [car]) ..< length (pre @ [car]) + length cars])"
    using Cons.prems by (intro Cons.IH) simp
  also have "\<dots> = Inr (acc @ map (derived_color pb (pre @ car # cars))
                  [length pre ..< length pre + length (car # cars)])"
  proof -
    have "[length pre ..< length pre + length (car # cars)] =
            length pre # [length (pre @ [car]) ..< length (pre @ [car]) + length cars]"
      by (subst upt_rec) simp
    then show ?thesis
      by simp
  qed
  finally show ?case .
qed

lemma paint_loop_invalid:
  "\<exists>car \<in> set cars. \<not> valid_index pb car \<Longrightarrow> paint_loop pb P acc cars = Inl IndexError"
  by (induction cars arbitrary: P acc) (auto simp: getitem_def)

lemma adjacent_pairs_map_upt:
  "adjacent_pairs (map f [0 ..< n]) = map (\<lambda>i. (f i, f (i + 1))) [0 ..< n - 1]"
  by (rule nth_equalityI) (auto simp: adjacent_pairs_def)

lemma color_changes_refines:
  assumes "\<forall>car \<in> set s. valid_index pb car"
  shows "color_changes pb s = Inr (color_changes_spec pb s)"
proof -
  have "paint_loop pb {} [] s = Inr (map (derived_color pb s) [0 ..< length s])"
    using paint_loop_valid [OF assms, of "[]" "[]"] by simp
  then show ?thesis
    by (simp add: color_changes_def color_changes_spec_def count_loop_eq
          adjacent_pairs_map_upt filter_map comp_def)
qed

lemma color_changes_spec_bounds:
  "0 \<le> color_changes_spec pb s \<and> color_changes_spec pb s \<le> max 0 (int (length s) - 1)"
proof -
  have "length (filter (\<lambda>i. py_ne (derived_color pb s i) (derived_color pb s (i + 1)))
          [0 ..< length s - 1]) \<le> length [0 ..< length s - 1]"
    by (rule length_filter_le)
  then show ?thesis
    by (auto simp: color_changes_spec_def)
qed

text \<open>
  Claim C6. Whenever all elements of the car sequence are valid indices into the paint
  bitstring, \<^verbatim>\<open>color_changes\<close> returns the number of adjacent position pairs whose
  colours differ in the derived colour sequence (first occurrence of \<open>c\<close>:
  \<^verbatim>\<open>paint_bitstring[c]\<close>; later occurrences: its Boolean negation). For the car sequence
  \<open>[0,1,0,1]\<close> and the first-car colours \<open>[0,1]\<close> the result is 2.
\<close>

theorem color_changes_counts:
  "((\<forall>car \<in> set car_sequence. valid_index paint_bitstring car) \<longrightarrow>
      color_changes paint_bitstring car_sequence =
        Inr (color_changes_spec paint_bitstring car_sequence))
   \<and> color_changes [0, 1] [0, 1, 0, 1] = Inr 2"
proof
  show "(\<forall>car \<in> set car_sequence. valid_index paint_bitstring car) \<longrightarrow>
      color_changes paint_bitstring car_sequence =
        Inr (color_changes_spec paint_bitstring car_sequence)"
    using color_changes_refines by blast
  show "color_changes [0, 1] [0, 1, 0, 1] = Inr 2"
    by (simp add: color_changes_def getitem_def valid_index_def item_def py_not_def
          py_ne_def adjacent_pairs_def)
qed

theorem color_changes_counts_witness:
  "valid_index [0, 1 :: int] 0 \<and> valid_index [0, 1 :: int] 1
   \<and> color_changes [0, 1] [0, 1, 0, 1] = Inr (color_changes_spec [0, 1] [0, 1, 0, 1])
   \<and> color_changes_spec [0, 1] [0, 1, 0, 1] = 2"
proof -
  have h: "\<forall>car \<in> set [0, 1, 0, 1]. valid_index [0, 1 :: int] car"
    by (simp add: valid_index_def)
  from h color_changes_counts [of "[0, 1, 0, 1]" "[0, 1]"]
  have eq: "color_changes [0, 1] [0, 1, 0, 1] = Inr (color_changes_spec [0, 1] [0, 1, 0, 1])"
    and two: "color_changes [0, 1] [0, 1, 0, 1] = Inr 2"
    by blast+
  from eq two have "color_changes_spec [0, 1] [0, 1, 0, 1] = 2"
    by (simp only: sum.inject)
  with h eq show ?thesis
    by simp
qed

text \<open>
  Claim C10. Whenever all elements of the car sequence are valid indices into the paint
  bitstring, \<^verbatim>\<open>color_changes\<close> returns a count between 0 and
  \<open>max(0, len(car_sequence) - 1)\<close>; an empty or single-element car sequence gives 0.
\<close>

theorem color_changes_bounds:
  assumes "\<forall>car \<in> set car_sequence. valid_index paint_bitstring car"
  shows "\<exists>count. color_changes paint_bitstring car_sequence = Inr count
           \<and> 0 \<le> count \<and> count \<le> max 0 (int (length car_sequence) - 1)
           \<and> (length car_sequence \<le> 1 \<longrightarrow> count = 0)"
proof -
  let ?count = "color_changes_spec paint_bitstring car_sequence"
  have "color_changes paint_bitstring car_sequence = Inr ?count"
    using assms by (rule color_changes_refines)
  moreover have bounds: "0 \<le> ?count \<and> ?count \<le> max 0 (int (length car_sequence) - 1)"
    by (rule color_changes_spec_bounds)
  moreover have "length car_sequence \<le> 1 \<longrightarrow> ?count = 0"
    using bounds by auto
  ultimately show ?thesis
    by blast
qed

theorem color_changes_bounds_witness:
  "valid_index [0, 1 :: int] 1
   \<and> color_changes [0, 1] [1] = Inr 0
   \<and> color_changes [0, 1] [] = Inr 0"
proof -
  have h1: "\<forall>car \<in> set [1]. valid_index [0, 1 :: int] car"
    by (simp add: valid_index_def)
  have h0: "\<forall>car \<in> set []. valid_index [0, 1 :: int] car"
    by simp
  show ?thesis
    using h1 color_changes_bounds [OF h1] color_changes_bounds [OF h0] by auto
qed

section \<open>Runs: termination, determinism, untouched arguments\<close>

lemma final_state_unique:
  assumes det: "\<And>a b c. step a b \<Longrightarrow> step a c \<Longrightarrow> b = c"
    and stuck: "\<And>a b. final a \<Longrightarrow> \<not> step a b"
    and "rtranclp step x y" "final y" "rtranclp step x z" "final z"
  shows "y = z"
  using assms(3-6)
proof (induction rule: converse_rtranclp_induct)
  case base
  then show ?case
    using stuck by (metis converse_rtranclpE)
next
  case (step a b)
  from step.prems(2) show ?case
  proof (cases rule: converse_rtranclpE)
    case base
    with step.hyps(1) step.prems(3) stuck show ?thesis by blast
  next
    case (step b')
    with det step.hyps(1) have "b' = b" by blast
    with step step.IH step.prems show ?thesis by blast
  qed
qed

lemma sg_step_deterministic: "sg_step a b \<Longrightarrow> sg_step a c \<Longrightarrow> b = c"
  by (erule sg_step.cases; erule sg_step.cases; simp)

lemma sg_step_more: "sg_step a b \<Longrightarrow> sg_more a"
  by (erule sg_step.cases) simp_all

lemma sg_step_car_sequence: "sg_step a b \<Longrightarrow> sg_car_sequence b = sg_car_sequence a"
  by (erule sg_step.cases) simp_all

lemma sg_steps_car_sequence: "rtranclp sg_step a b \<Longrightarrow> sg_car_sequence b = sg_car_sequence a"
  by (induction rule: rtranclp_induct) (simp_all add: sg_step_car_sequence)

lemma adjacent_pairs_drop:
  "i + 1 < length s \<Longrightarrow>
     drop i (adjacent_pairs s) = (s ! i, s ! (i + 1)) # drop (Suc i) (adjacent_pairs s)"
proof -
  assume less: "i + 1 < length s"
  have zip_drop: "drop k (adjacent_pairs s) = zip (drop k s) (drop (Suc k) s)" for k
    by (simp add: adjacent_pairs_def drop_zip)
  have "drop i s = s ! i # drop (Suc i) s"
    using less Cons_nth_drop_Suc [of i s] by simp
  moreover have "drop (Suc i) s = s ! (i + 1) # drop (Suc (Suc i)) s"
    using less Cons_nth_drop_Suc [of "Suc i" s] by simp
  ultimately have "zip (drop i s) (drop (Suc i) s) =
      (s ! i, s ! (i + 1)) # zip (drop (Suc i) s) (drop (Suc (Suc i)) s)"
    by simp
  then show ?thesis
    by (simp only: zip_drop)
qed

lemma sg_reach:
  "\<exists>st. rtranclp sg_step
          \<lparr>sg_car_sequence = s, sg_position = i, sg_appeared_already = A, sg_yielded = out\<rparr> st
        \<and> \<not> sg_more st
        \<and> sg_yielded st = out @ spin_glass_loop A (drop i (adjacent_pairs s))"
proof (induction "length s - i" arbitrary: i A out)
  case 0
  let ?st = "\<lparr>sg_car_sequence = s, sg_position = i, sg_appeared_already = A, sg_yielded = out\<rparr>"
  from 0 have "\<not> sg_more ?st" "drop i (adjacent_pairs s) = []"
    by (simp_all add: sg_more_def adjacent_pairs_length)
  then show ?case
    by (intro exI [of _ ?st]) simp
next
  case (Suc n)
  let ?st = "\<lparr>sg_car_sequence = s, sg_position = i, sg_appeared_already = A, sg_yielded = out\<rparr>"
  show ?case
  proof (cases "i + 1 < length s")
    case False
    then have "\<not> sg_more ?st" "drop i (adjacent_pairs s) = []"
      by (simp_all add: sg_more_def adjacent_pairs_length)
    then show ?thesis
      by (intro exI [of _ ?st]) simp
  next
    case True
    define car0 where "car0 = s ! i"
    define car1 where "car1 = s ! (i + 1)"
    define A' where "A' = (if car0 = car1 then A else insert car0 A)"
    define emit where "emit = (if car0 = car1 then []
       else [(car0, car1, if (car0 \<in> A) = (car1 \<in> A) then ferromagnetic else antiferromagnetic)])"
    let ?st' = "\<lparr>sg_car_sequence = s, sg_position = Suc i, sg_appeared_already = A',
                 sg_yielded = out @ emit\<rparr>"
    have more: "sg_more ?st" and c0: "sg_car0 ?st = car0" and c1: "sg_car1 ?st = car1"
      using True by (simp_all add: sg_more_def sg_car0_def sg_car1_def car0_def car1_def)
    have step: "sg_step ?st ?st'"
    proof (cases "car0 = car1")
      case True
      with sg_continue [of ?st] more c0 c1 show ?thesis
        by (simp add: A'_def emit_def)
    next
      case False
      show ?thesis
      proof (cases "car0 \<in> A"; cases "car1 \<in> A")
        assume "car0 \<in> A" "car1 \<in> A"
        with sg_second_second [of ?st] more c0 c1 False show ?thesis
          by (simp add: A'_def emit_def)
      next
        assume "car0 \<in> A" "car1 \<notin> A"
        with sg_second_first [of ?st] more c0 c1 False show ?thesis
          by (simp add: A'_def emit_def)
      next
        assume "car0 \<notin> A" "car1 \<in> A"
        with sg_first_second [of ?st] more c0 c1 False show ?thesis
          by (simp add: A'_def emit_def)
      next
        assume "car0 \<notin> A" "car1 \<notin> A"
        with sg_first_first [of ?st] more c0 c1 False show ?thesis
          by (simp add: A'_def emit_def)
      qed
    qed
    have loop: "spin_glass_loop A (drop i (adjacent_pairs s)) =
                  emit @ spin_glass_loop A' (drop (Suc i) (adjacent_pairs s))"
      unfolding adjacent_pairs_drop [OF True] car0_def [symmetric] car1_def [symmetric]
      by (cases "car0 = car1")
         (simp_all add: A'_def emit_def spin_glass_loop_skip spin_glass_loop_yield
            del: spin_glass_loop.simps)
    from Suc.hyps(2) True have "n = length s - Suc i"
      by simp
    from Suc.hyps(1) [OF this, of A' "out @ emit"] obtain st where st:
      "rtranclp sg_step ?st' st" "\<not> sg_more st"
      "sg_yielded st = (out @ emit) @ spin_glass_loop A' (drop (Suc i) (adjacent_pairs s))"
      by blast
    from step st(1) have "rtranclp sg_step ?st st"
      by (rule converse_rtranclp_into_rtranclp)
    with st(2,3) loop show ?thesis
      by (intro exI [of _ st]) simp
  qed
qed

lemma sg_run_exists: "\<exists>st. sg_run s st \<and> sg_yielded st = spin_glass s"
  using sg_reach [of s 0 "{}" "[]"]
  by (simp add: sg_run_def sg_initial_def spin_glass_def)

lemma sg_run_unique: "sg_run s st \<Longrightarrow> sg_run s st' \<Longrightarrow> st = st'"
  unfolding sg_run_def
  using final_state_unique [of sg_step "\<lambda>st. \<not> sg_more st" "sg_initial s" st st']
    sg_step_deterministic sg_step_more
  by blast

lemma sg_run_result:
  assumes "sg_run s st"
  shows "sg_yielded st = spin_glass s \<and> sg_car_sequence st = s"
proof -
  from sg_run_exists obtain st0 where "sg_run s st0" "sg_yielded st0 = spin_glass s"
    by blast
  with assms sg_run_unique have "sg_yielded st = spin_glass s"
    by blast
  moreover from assms have "sg_car_sequence st = s"
    using sg_steps_car_sequence [of "sg_initial s" st]
    by (simp add: sg_run_def sg_initial_def)
  ultimately show ?thesis ..
qed

lemma cc_step_deterministic: "cc_step a b \<Longrightarrow> cc_step a c \<Longrightarrow> b = c"
  by (erule cc_step.cases; erule cc_step.cases; simp)

lemma cc_step_running: "cc_step a b \<Longrightarrow> cc_outcome (cc_control a) = None"
  by (erule cc_step.cases) simp_all

lemma cc_step_inputs:
  "cc_step a b \<Longrightarrow>
     cc_paint_bitstring b = cc_paint_bitstring a \<and> cc_car_sequence b = cc_car_sequence a"
  by (erule cc_step.cases) simp_all

lemma cc_steps_inputs:
  "rtranclp cc_step a b \<Longrightarrow>
     cc_paint_bitstring b = cc_paint_bitstring a \<and> cc_car_sequence b = cc_car_sequence a"
  by (induction rule: rtranclp_induct) (simp_all add: cc_step_inputs)

lemma cc_paint_reach:
  "\<exists>st. rtranclp cc_step
          \<lparr>cc_paint_bitstring = pb, cc_car_sequence = s, cc_control = Painting i,
           cc_painted_once = P, cc_color_sequence = cs, cc_paint_change_counter = c\<rparr> st
        \<and> (case paint_loop pb P cs (drop i s) of
              Inl e \<Rightarrow> cc_control st = Raised e
            | Inr cs' \<Rightarrow> \<exists>P'. st =
                \<lparr>cc_paint_bitstring = pb, cc_car_sequence = s, cc_control = Counting 0,
                 cc_painted_once = P', cc_color_sequence = cs', cc_paint_change_counter = 0\<rparr>)"
proof (induction "length s - i" arbitrary: i P cs)
  case 0
  let ?st = "\<lparr>cc_paint_bitstring = pb, cc_car_sequence = s, cc_control = Painting i,
           cc_painted_once = P, cc_color_sequence = cs, cc_paint_change_counter = c\<rparr>"
  let ?st' = "\<lparr>cc_paint_bitstring = pb, cc_car_sequence = s, cc_control = Counting 0,
           cc_painted_once = P, cc_color_sequence = cs, cc_paint_change_counter = 0\<rparr>"
  from 0 have fin: "\<not> i < length s" "drop i s = []"
    by simp_all
  with cc_paint_done [of ?st i] have "cc_step ?st ?st'"
    by simp
  then have "rtranclp cc_step ?st ?st'"
    by (rule r_into_rtranclp)
  with fin(2) show ?case
    by (intro exI [of _ ?st']) simp
next
  case (Suc n)
  let ?st = "\<lparr>cc_paint_bitstring = pb, cc_car_sequence = s, cc_control = Painting i,
           cc_painted_once = P, cc_color_sequence = cs, cc_paint_change_counter = c\<rparr>"
  from Suc.hyps(2) have less: "i < length s" and n: "n = length s - Suc i"
    by simp_all
  define car where "car = s ! i"
  have drop: "drop i s = car # drop (Suc i) s"
    using less by (simp add: car_def Cons_nth_drop_Suc)
  show ?case
  proof (cases "getitem pb car")
    case (Inl e)
    let ?st' = "\<lparr>cc_paint_bitstring = pb, cc_car_sequence = s, cc_control = Raised e,
           cc_painted_once = P, cc_color_sequence = cs, cc_paint_change_counter = c\<rparr>"
    from cc_paint_raise [of ?st i e] less Inl have "cc_step ?st ?st'"
      by (simp add: car_def)
    then have "rtranclp cc_step ?st ?st'"
      by (rule r_into_rtranclp)
    moreover have "paint_loop pb P cs (drop i s) = Inl e"
      using Inl by (simp add: drop)
    ultimately show ?thesis
      by (intro exI [of _ ?st']) simp
  next
    case (Inr paint)
    define P' where "P' = (if car \<in> P then P else insert car P)"
    define col where "col = (if car \<in> P then PyBool (py_not paint) else PyInt paint)"
    let ?st' = "\<lparr>cc_paint_bitstring = pb, cc_car_sequence = s, cc_control = Painting (Suc i),
           cc_painted_once = P', cc_color_sequence = cs @ [col], cc_paint_change_counter = c\<rparr>"
    have step: "cc_step ?st ?st'"
    proof (cases "car \<in> P")
      case True
      with cc_paint_second [of ?st i paint] less Inr show ?thesis
        by (simp add: car_def P'_def col_def)
    next
      case False
      with cc_paint_first [of ?st i paint] less Inr show ?thesis
        by (simp add: car_def P'_def col_def)
    qed
    have loop: "paint_loop pb P cs (drop i s) = paint_loop pb P' (cs @ [col]) (drop (Suc i) s)"
      using Inr by (simp add: drop P'_def col_def)
    from Suc.hyps(1) [OF n, of P' "cs @ [col]"] obtain st where st:
      "rtranclp cc_step ?st' st"
      "case paint_loop pb P' (cs @ [col]) (drop (Suc i) s) of
              Inl e \<Rightarrow> cc_control st = Raised e
            | Inr cs' \<Rightarrow> \<exists>P'. st =
                \<lparr>cc_paint_bitstring = pb, cc_car_sequence = s, cc_control = Counting 0,
                 cc_painted_once = P', cc_color_sequence = cs', cc_paint_change_counter = 0\<rparr>"
      by blast
    from step st(1) have "rtranclp cc_step ?st st"
      by (rule converse_rtranclp_into_rtranclp)
    with st(2) show ?thesis
      unfolding loop by blast
  qed
qed

lemma cc_count_reach:
  "\<exists>st. rtranclp cc_step
          \<lparr>cc_paint_bitstring = pb, cc_car_sequence = s, cc_control = Counting j,
           cc_painted_once = P, cc_color_sequence = cs, cc_paint_change_counter = c\<rparr> st
        \<and> cc_control st = Returned (count_loop c (drop j (adjacent_pairs cs)))"
proof (induction "length cs - j" arbitrary: j c)
  case 0
  let ?st = "\<lparr>cc_paint_bitstring = pb, cc_car_sequence = s, cc_control = Counting j,
           cc_painted_once = P, cc_color_sequence = cs, cc_paint_change_counter = c\<rparr>"
  from 0 have fin: "\<not> j + 1 < length cs" "drop j (adjacent_pairs cs) = []"
    by (simp_all add: adjacent_pairs_length)
  from cc_return [of ?st j] fin(1)
  have "cc_step ?st (?st\<lparr>cc_control := Returned c\<rparr>)"
    by simp
  then have "rtranclp cc_step ?st (?st\<lparr>cc_control := Returned c\<rparr>)"
    by (rule r_into_rtranclp)
  with fin(2) show ?case
    by (intro exI [of _ "?st\<lparr>cc_control := Returned c\<rparr>"]) simp
next
  case (Suc n)
  let ?st = "\<lparr>cc_paint_bitstring = pb, cc_car_sequence = s, cc_control = Counting j,
           cc_painted_once = P, cc_color_sequence = cs, cc_paint_change_counter = c\<rparr>"
  show ?case
  proof (cases "j + 1 < length cs")
    case False
    then have fin: "drop j (adjacent_pairs cs) = []"
      by (simp add: adjacent_pairs_length)
    from cc_return [of ?st j] False
    have "cc_step ?st (?st\<lparr>cc_control := Returned c\<rparr>)"
      by simp
    then have "rtranclp cc_step ?st (?st\<lparr>cc_control := Returned c\<rparr>)"
      by (rule r_into_rtranclp)
    with fin show ?thesis
      by (intro exI [of _ "?st\<lparr>cc_control := Returned c\<rparr>"]) simp
  next
    case True
    define c' where "c' = (if py_ne (cs ! j) (cs ! (j + 1)) then c + 1 else c)"
    let ?st' = "\<lparr>cc_paint_bitstring = pb, cc_car_sequence = s, cc_control = Counting (Suc j),
           cc_painted_once = P, cc_color_sequence = cs, cc_paint_change_counter = c'\<rparr>"
    have step: "cc_step ?st ?st'"
    proof (cases "py_ne (cs ! j) (cs ! (j + 1))")
      case True
      with cc_count_change [of ?st j] \<open>j + 1 < length cs\<close> show ?thesis
        by (simp add: c'_def)
    next
      case False
      with cc_count_same [of ?st j] \<open>j + 1 < length cs\<close> show ?thesis
        by (simp add: c'_def)
    qed
    have loop: "count_loop c (drop j (adjacent_pairs cs)) =
                  count_loop c' (drop (Suc j) (adjacent_pairs cs))"
      by (simp add: adjacent_pairs_drop [OF True] c'_def)
    from Suc.hyps(2) True have "n = length cs - Suc j"
      by simp
    from Suc.hyps(1) [OF this, of c'] obtain st where st:
      "rtranclp cc_step ?st' st"
      "cc_control st = Returned (count_loop c' (drop (Suc j) (adjacent_pairs cs)))"
      by blast
    from step st(1) have "rtranclp cc_step ?st st"
      by (rule converse_rtranclp_into_rtranclp)
    with st(2) loop show ?thesis
      by (intro exI [of _ st]) simp
  qed
qed

lemma cc_run_exists:
  "\<exists>st. cc_run pb s st \<and> cc_outcome (cc_control st) = Some (color_changes pb s)"
proof -
  from cc_paint_reach [of pb s 0 "{}" "[]" 0] obtain st where st:
    "rtranclp cc_step (cc_initial pb s) st"
    "case paint_loop pb {} [] s of
        Inl e \<Rightarrow> cc_control st = Raised e
      | Inr cs' \<Rightarrow> \<exists>P'. st =
          \<lparr>cc_paint_bitstring = pb, cc_car_sequence = s, cc_control = Counting 0,
           cc_painted_once = P', cc_color_sequence = cs', cc_paint_change_counter = 0\<rparr>"
    by (auto simp: cc_initial_def)
  show ?thesis
  proof (cases "paint_loop pb {} [] s")
    case (Inl e)
    with st show ?thesis
      by (intro exI [of _ st]) (simp add: cc_run_def color_changes_def)
  next
    case (Inr cs')
    with st(2) obtain P' where st_eq: "st =
          \<lparr>cc_paint_bitstring = pb, cc_car_sequence = s, cc_control = Counting 0,
           cc_painted_once = P', cc_color_sequence = cs', cc_paint_change_counter = 0\<rparr>"
      by auto
    from cc_count_reach [of pb s 0 P' cs' 0] obtain st' where st':
      "rtranclp cc_step st st'"
      "cc_control st' = Returned (count_loop 0 (adjacent_pairs cs'))"
      unfolding st_eq by auto
    from st(1) st'(1) have "rtranclp cc_step (cc_initial pb s) st'"
      by (rule rtranclp_trans)
    with st'(2) Inr show ?thesis
      by (intro exI [of _ st']) (simp add: cc_run_def color_changes_def)
  qed
qed

lemma cc_run_unique:
  assumes "cc_run pb s st" and "cc_run pb s st'"
  shows "st = st'"
proof (rule final_state_unique [of cc_step "\<lambda>st. cc_outcome (cc_control st) \<noteq> None"])
  show "cc_step a b \<Longrightarrow> cc_step a c \<Longrightarrow> b = c" for a b c
    by (rule cc_step_deterministic)
  show "cc_outcome (cc_control a) \<noteq> None \<Longrightarrow> \<not> cc_step a b" for a b
    using cc_step_running [of a b] by auto
  show "rtranclp cc_step (cc_initial pb s) st" "cc_outcome (cc_control st) \<noteq> None"
    using assms(1) by (simp_all add: cc_run_def)
  show "rtranclp cc_step (cc_initial pb s) st'" "cc_outcome (cc_control st') \<noteq> None"
    using assms(2) by (simp_all add: cc_run_def)
qed

lemma cc_run_result:
  assumes "cc_run pb s st"
  shows "cc_outcome (cc_control st) = Some (color_changes pb s)
         \<and> cc_paint_bitstring st = pb \<and> cc_car_sequence st = s"
proof -
  from cc_run_exists obtain st0 where
    "cc_run pb s st0" "cc_outcome (cc_control st0) = Some (color_changes pb s)"
    by blast
  with assms cc_run_unique have "cc_outcome (cc_control st) = Some (color_changes pb s)"
    by blast
  moreover from assms have "cc_paint_bitstring st = pb \<and> cc_car_sequence st = s"
    using cc_steps_inputs [of "cc_initial pb s" st]
    by (simp add: cc_run_def cc_initial_def)
  ultimately show ?thesis by blast
qed

text \<open>
  Claim C9. Both functions are deterministic and free of side effects: on given
  arguments a run exists, any two runs end in the same state, hence with the same list of
  yielded triples (the same returned count or raised exception), this output is the value
  of the functional model, and the argument sequences are in the final state what they
  were at the call.
\<close>

theorem runs_deterministic:
  "(\<exists>st. sg_run car_sequence st)
   \<and> (\<forall>st st'. sg_run car_sequence st \<longrightarrow> sg_run car_sequence st' \<longrightarrow> st' = st)
   \<and> (\<forall>st. sg_run car_sequence st \<longrightarrow>
          sg_yielded st = spin_glass car_sequence \<and> sg_car_sequence st = car_sequence)
   \<and> (\<exists>st. cc_run paint_bitstring car_sequence st)
   \<and> (\<forall>st st'. cc_run paint_bitstring car_sequence st \<longrightarrow>
          cc_run paint_bitstring car_sequence st' \<longrightarrow> st' = st)
   \<and> (\<forall>st. cc_run paint_bitstring car_sequence st \<longrightarrow>
          cc_outcome (cc_control st) = Some (color_changes paint_bitstring car_sequence)
          \<and> cc_paint_bitstring st = paint_bitstring \<and> cc_car_sequence st = car_sequence)"
proof (intro conjI allI impI)
  show "\<exists>st. sg_run car_sequence st"
    using sg_run_exists by blast
  show "\<exists>st. cc_run paint_bitstring car_sequence st"
    using cc_run_exists by blast
next
  fix st st'
  assume "sg_run car_sequence st" "sg_run car_sequence st'"
  then show "st' = st"
    by (rule sg_run_unique [symmetric])
next
  fix st st'
  assume "cc_run paint_bitstring car_sequence st" "cc_run paint_bitstring car_sequence st'"
  then show "st' = st"
    by (rule cc_run_unique [symmetric])
next
  fix st
  assume "sg_run car_sequence st"
  then show "sg_yielded st = spin_glass car_sequence" "sg_car_sequence st = car_sequence"
    by (simp_all add: sg_run_result)
next
  fix st
  assume "cc_run paint_bitstring car_sequence st"
  then show "cc_outcome (cc_control st) = Some (color_changes paint_bitstring car_sequence)"
    "cc_paint_bitstring st = paint_bitstring" "cc_car_sequence st = car_sequence"
    by (simp_all add: cc_run_result)
qed

theorem runs_deterministic_witness:
  "(\<exists>st. sg_run [0, 1, 0, 1] st
        \<and> sg_yielded st = [(0, 1, - 1), (1, 0, 1), (0, 1, - 1)]
        \<and> sg_car_sequence st = [0, 1, 0, 1])
   \<and> (\<exists>st. cc_run [0, 1] [0, 1, 0, 1] st
        \<and> cc_outcome (cc_control st) = Some (Inr 2)
        \<and> cc_paint_bitstring st = [0, 1] \<and> cc_car_sequence st = [0, 1, 0, 1])"
proof -
  have sg: "spin_glass [0, 1, 0, 1] = [(0, 1, - 1), (1, 0, 1), (0, 1, - 1)]"
    by (simp add: spin_glass_def adjacent_pairs_def ferromagnetic_def antiferromagnetic_def)
  have cc: "color_changes [0, 1] [0, 1, 0, 1] = Inr 2"
    by (simp add: color_changes_def getitem_def valid_index_def item_def py_not_def
          py_ne_def adjacent_pairs_def)
  show ?thesis
    using runs_deterministic [of "[0, 1, 0, 1]" "[0, 1]"]
    unfolding sg cc by blast
qed

text \<open>
  Claim C8. The generator validates nothing and has no failing step: on a malformed
  sequence (some identifier not occurring exactly twice, which includes every sequence of
  odd length) the run still reaches the end of the loop, and it has yielded one triple
  for each pair of unequal neighbours, in order.
\<close>

theorem spin_glass_no_validation:
  "\<not> well_formed s \<or> odd (length s) \<Longrightarrow>
     (\<exists>st. sg_run s st \<and> sg_yielded st = spin_glass s)
     \<and> map (\<lambda>(car0, car1, sign). (car0, car1)) (spin_glass s) =
         filter (\<lambda>(car0, car1). car0 \<noteq> car1) (adjacent_pairs s)
     \<and> length (spin_glass s) = length s - 1 - adjacent_equal s"
proof -
  have "length (spin_glass s) + adjacent_equal s = length s - 1"
    using filter_split_length [of "adjacent_pairs s"]
    by (simp add: spin_glass_def spin_glass_loop_length adjacent_equal_def
          adjacent_pairs_length)
  then have "length (spin_glass s) = length s - 1 - adjacent_equal s"
    by simp
  moreover have "map (\<lambda>(car0, car1, sign). (car0, car1)) (spin_glass s) =
         filter (\<lambda>(car0, car1). car0 \<noteq> car1) (adjacent_pairs s)"
    by (simp add: spin_glass_def spin_glass_loop_pairs)
  ultimately show ?thesis
    using sg_run_exists [of s] by blast
qed

theorem spin_glass_no_validation_witness:
  "count_list [0, 1, 0, 0, 2] (0 :: int) = 3 \<and> length [0, 1, 0, 0, 2 :: int] = 5
   \<and> map (\<lambda>(car0, car1, sign). (car0, car1)) (spin_glass [0, 1, 0, 0, 2]) =
       [(0, 1), (1, 0), (0, 2)]
   \<and> length (spin_glass [0, 1, 0, 0, 2]) = 3"
proof -
  have h: "\<not> well_formed [0, 1, 0, 0, 2] \<or> odd (length [0, 1, 0, 0, 2 :: int])"
    by (simp add: well_formed_def)
  show ?thesis
    using spin_glass_no_validation [OF h]
    by (simp add: adjacent_pairs_def adjacent_equal_def)
qed

end
